theory Spec2Isabelle
  imports Complex_Main "HOL-Library.Char_ord" "HOL-Library.List_Lexorder" "HOL-Library.Log_Nat" "HOL-Library.Multiset"
begin

section \<open>Base conversion (convert_numbers.py)\<close>

text \<open>
  Python integers are unbounded, so they are HOL integers; \<open>//\<close> and \<open>%\<close> are floor
  division and its remainder, as \<open>div\<close> and \<open>mod\<close> are on \<open>int\<close>. The two
  \<open>while n > 0\<close> loops are modelled as partial functions into \<open>option\<close>: a loop that
  never left would have the value \<open>None\<close>, so that returning is something to prove.
  The list \<open>bits\<close> holds one-character strings and grows at its end, as \<open>append\<close> does.
\<close>

definition HEX_DIGITS :: string where
  "HEX_DIGITS = ''0123456789ABCDEF''"

partial_function (option) to_binary_loop :: "int \<Rightarrow> string list \<Rightarrow> string list option" where
  "to_binary_loop n bits =
     (if n > 0
      then to_binary_loop (n div 2) (bits @ [if n mod 2 = 1 then ''1'' else ''0''])
      else Some bits)"

declare to_binary_loop.simps [code]

definition to_binary_str :: "int \<Rightarrow> string option" where
  "to_binary_str number =
     (if number = 0 then Some ''0''
      else
        let sign = (if number < 0 then ''-'' else '''');
            n = (if number < 0 then - number else number)
        in case to_binary_loop n [] of
             None \<Rightarrow> None
           | Some bits \<Rightarrow> Some (sign @ concat (rev bits)))"

partial_function (option) to_hex_loop :: "int \<Rightarrow> string list \<Rightarrow> string list option" where
  "to_hex_loop n digits =
     (if n > 0
      then to_hex_loop (n div 16) (digits @ [[HEX_DIGITS ! nat (n mod 16)]])
      else Some digits)"

declare to_hex_loop.simps [code]

definition to_hex_str :: "int \<Rightarrow> string option" where
  "to_hex_str number =
     (if number = 0 then Some ''0''
      else
        let sign = (if number < 0 then ''-'' else '''');
            n = (if number < 0 then - number else number)
        in case to_hex_loop n [] of
             None \<Rightarrow> None
           | Some digits \<Rightarrow> Some (sign @ concat (rev digits)))"

text \<open>
  Reading a digit string back as a numeral of a base, the way positional notation is
  defined: Horner's rule from the most significant digit, over the digits
  \<open>0..9\<close> and \<open>A..F\<close>. A string with no digit, or with a character that is not a
  digit of the base, denotes nothing.
\<close>

definition digit_value :: "char \<Rightarrow> nat option" where
  "digit_value c =
     (let k = (of_char c :: nat) in
      if 48 \<le> k \<and> k \<le> 57 then Some (k - 48)
      else if 65 \<le> k \<and> k \<le> 70 then Some (k - 55)
      else None)"

fun parse_digits :: "nat \<Rightarrow> int \<Rightarrow> string \<Rightarrow> int option" where
  "parse_digits b acc [] = Some acc"
| "parse_digits b acc (c # cs) =
     (case digit_value c of
        None \<Rightarrow> None
      | Some d \<Rightarrow> if d < b then parse_digits b (acc * int b + int d) cs else None)"

definition parse_base :: "nat \<Rightarrow> string \<Rightarrow> int option" where
  "parse_base b s = (if s = [] then None else parse_digits b 0 s)"

section \<open>Python strings and files, as far as the tools use them\<close>

text \<open>
  A Python \<open>str\<close> is modelled as a \<open>string\<close>: one \<open>char\<close> is one code point, so
  the model covers the text whose code points are below 256 (ASCII and Latin-1). The
  order on \<open>char\<close> is the order of the code points, which is the order
  \<open>ch < "0"\<close> compares by. \<open>isspace\<close> lists the code points of that range that
  \<open>str.strip()\<close> and \<open>str.split()\<close> treat as whitespace: tab, line feed, vertical
  tab, form feed, carriage return, the four separators \<open>0x1C..0x1F\<close>, space, next
  line (\<open>0x85\<close>) and no-break space (\<open>0xA0\<close>).
\<close>

datatype py_error = IndexError | ZeroDivisionError | ValueError | OSError | UnicodeDecodeError

definition isspace :: "char \<Rightarrow> bool" where
  "isspace c =
     (let k = (of_char c :: nat) in
      (9 \<le> k \<and> k \<le> 13) \<or> (28 \<le> k \<and> k \<le> 32) \<or> k = 133 \<or> k = 160)"

definition strip :: "string \<Rightarrow> string" where
  "strip s = rev (dropWhile isspace (rev (dropWhile isspace s)))"

text \<open>
  \<open>s.split()\<close>: the maximal runs of characters that are not whitespace, in order;
  \<open>cur\<close> is the run being read.
\<close>

fun split_ws_from :: "string \<Rightarrow> string \<Rightarrow> string list" where
  "split_ws_from cur [] = (if cur = [] then [] else [cur])"
| "split_ws_from cur (c # cs) =
     (if isspace c
      then (if cur = [] then split_ws_from [] cs else cur # split_ws_from [] cs)
      else split_ws_from (cur @ [c]) cs)"

definition split_ws :: "string \<Rightarrow> string list" where
  "split_ws s = split_ws_from [] s"

text \<open>
  \<open>s.split(sep)\<close> for a one-character separator: the pieces between separators, empty
  pieces included, so that the empty string splits into one empty piece.
\<close>

fun split_sep_from :: "char \<Rightarrow> string \<Rightarrow> string \<Rightarrow> string list" where
  "split_sep_from sep cur [] = [cur]"
| "split_sep_from sep cur (c # cs) =
     (if c = sep then cur # split_sep_from sep [] cs
      else split_sep_from sep (cur @ [c]) cs)"

definition split_sep :: "char \<Rightarrow> string \<Rightarrow> string list" where
  "split_sep sep s = split_sep_from sep [] s"

text \<open>
  \<open>str.lower()\<close> on that range, character by character: the capitals \<open>A..Z\<close> and
  the accented capitals \<open>0xC0..0xDE\<close>, the multiplication sign \<open>0xD7\<close> apart, move
  up by 32; every other code point stays.
\<close>

definition lower_char :: "char \<Rightarrow> char" where
  "lower_char c =
     (let k = (of_char c :: nat) in
      if (65 \<le> k \<and> k \<le> 90) \<or> (192 \<le> k \<and> k \<le> 222 \<and> k \<noteq> 215)
      then char_of (k + 32) else c)"

definition lower :: "string \<Rightarrow> string" where
  "lower s = map lower_char s"

text \<open>
  What \<open>open(path)\<close> and the iteration over the file give: the file is missing, it
  cannot be read, or it is a list of raw lines (each with its line terminator, if any).
\<close>

datatype file_content = Missing | Unreadable | Opened "string list"

text \<open>
  The entries of the tools' error lists. The message texts are not modelled, only
  their kind and the data they carry (line number and token); the file name is the
  same throughout one call.
\<close>

datatype error_record =
    TokenSkipped nat string
  | FileNotFound
  | CouldNotRead
  | EmptyLine nat
  | ErrorOpening

section \<open>Token validation and parsing (convert_numbers.py, compute_statistics.py)\<close>

text \<open>
  The \<open>for ch in token[start:]\<close> loop of \<open>is_valid_integer_token\<close>, which returns
  \<open>False\<close> at the first character outside \<open>"0".."9"\<close>.
\<close>

fun all_digits_loop :: "string \<Rightarrow> bool" where
  "all_digits_loop [] = True"
| "all_digits_loop (ch # rest) =
     (if ch < CHR ''0'' \<or> ch > CHR ''9'' then False else all_digits_loop rest)"

definition is_valid_integer_token :: "string \<Rightarrow> py_error + bool" where
  "is_valid_integer_token token =
     (if token = ''+'' \<or> token = ''-'' then Inr False
      else case token of
        [] \<Rightarrow> Inl IndexError
      | c # _ \<Rightarrow>
          let start = (if c \<in> set ''+-'' then 1 else 0 :: nat)
          in if start \<ge> length token then Inr False
             else Inr (all_digits_loop (drop start token)))"

text \<open>
  The pattern of the specification, \<open>[+-]?[0-9]+\<close>: an optional sign followed by one
  or more decimal digits, and nothing else.
\<close>

definition is_decimal_digit :: "char \<Rightarrow> bool" where
  "is_decimal_digit c = (c \<in> set ''0123456789'')"

definition matches_integer_pattern :: "string \<Rightarrow> bool" where
  "matches_integer_pattern t =
     (\<exists>sign digits. t = sign @ digits \<and> (sign = [] \<or> sign = ''+'' \<or> sign = ''-'') \<and>
        digits \<noteq> [] \<and> list_all is_decimal_digit digits)"

text \<open>The tokens of a stripped line: split at commas, then each part at whitespace.\<close>

definition line_tokens :: "string \<Rightarrow> string list" where
  "line_tokens line = concat (map split_ws (split_sep CHR '','' line))"

text \<open>
  \<open>parse_integers_from_file\<close>. The built-in \<open>int\<close> is a parameter \<open>int_conv\<close>
  (\<open>None\<close> when it raises \<open>ValueError\<close>, as it does on a digit string longer than the
  interpreter's limit). The state of the loops is the pair \<open>(numbers, errors)\<close>. An
  \<open>IndexError\<close> of \<open>is_valid_integer_token\<close> would not be caught by the function's
  handlers, so it is a result of the model.
\<close>

fun parse_integer_tokens ::
  "(string \<Rightarrow> int option) \<Rightarrow> nat \<Rightarrow> string list \<Rightarrow> int list \<times> error_record list
     \<Rightarrow> py_error + (int list \<times> error_record list)" where
  "parse_integer_tokens int_conv line_no [] st = Inr st"
| "parse_integer_tokens int_conv line_no (token # tokens) (numbers, errors) =
     (let token_stripped = strip token in
      if token_stripped = [] then parse_integer_tokens int_conv line_no tokens (numbers, errors)
      else case is_valid_integer_token token_stripped of
        Inl e \<Rightarrow> Inl e
      | Inr False \<Rightarrow>
          parse_integer_tokens int_conv line_no tokens
            (numbers, errors @ [TokenSkipped line_no token_stripped])
      | Inr True \<Rightarrow>
          (case int_conv token_stripped of
             Some v \<Rightarrow> parse_integer_tokens int_conv line_no tokens (numbers @ [v], errors)
           | None \<Rightarrow>
               parse_integer_tokens int_conv line_no tokens
                 (numbers, errors @ [TokenSkipped line_no token_stripped])))"

fun parse_integer_lines ::
  "(string \<Rightarrow> int option) \<Rightarrow> nat \<Rightarrow> string list \<Rightarrow> int list \<times> error_record list
     \<Rightarrow> py_error + (int list \<times> error_record list)" where
  "parse_integer_lines int_conv line_no [] st = Inr st"
| "parse_integer_lines int_conv line_no (raw_line # rest) st =
     (let line_no' = line_no + 1; line = strip raw_line in
      if line = [] then parse_integer_lines int_conv line_no' rest st
      else case parse_integer_tokens int_conv line_no' (line_tokens line) st of
        Inl e \<Rightarrow> Inl e
      | Inr st' \<Rightarrow> parse_integer_lines int_conv line_no' rest st')"

definition parse_integers_from_file ::
  "(string \<Rightarrow> int option) \<Rightarrow> file_content \<Rightarrow> py_error + (int list \<times> error_record list)" where
  "parse_integers_from_file int_conv file =
     (case file of
        Missing \<Rightarrow> Inr ([], [FileNotFound])
      | Unreadable \<Rightarrow> Inr ([], [CouldNotRead])
      | Opened raw_lines \<Rightarrow> parse_integer_lines int_conv 0 raw_lines ([], []))"

text \<open>
  \<open>parse_numbers_from_file\<close>: every token goes to the built-in \<open>float\<close>, the parameter
  \<open>float_conv\<close> (\<open>None\<close> when it raises \<open>ValueError\<close>); nothing else can raise.
\<close>

fun parse_number_tokens ::
  "(string \<Rightarrow> 'v option) \<Rightarrow> nat \<Rightarrow> string list \<Rightarrow> 'v list \<times> error_record list
     \<Rightarrow> 'v list \<times> error_record list" where
  "parse_number_tokens float_conv line_no [] st = st"
| "parse_number_tokens float_conv line_no (token # tokens) (numbers, errors) =
     (case float_conv token of
        Some v \<Rightarrow> parse_number_tokens float_conv line_no tokens (numbers @ [v], errors)
      | None \<Rightarrow>
          parse_number_tokens float_conv line_no tokens
            (numbers, errors @ [TokenSkipped line_no token]))"

fun parse_number_lines ::
  "(string \<Rightarrow> 'v option) \<Rightarrow> nat \<Rightarrow> string list \<Rightarrow> 'v list \<times> error_record list
     \<Rightarrow> 'v list \<times> error_record list" where
  "parse_number_lines float_conv line_no [] st = st"
| "parse_number_lines float_conv line_no (raw_line # rest) st =
     (let line_no' = line_no + 1; line = strip raw_line in
      if line = [] then parse_number_lines float_conv line_no' rest st
      else parse_number_lines float_conv line_no' rest
             (parse_number_tokens float_conv line_no' (line_tokens line) st))"

definition parse_numbers_from_file ::
  "(string \<Rightarrow> 'v option) \<Rightarrow> file_content \<Rightarrow> 'v list \<times> error_record list" where
  "parse_numbers_from_file float_conv file =
     (case file of
        Missing \<Rightarrow> ([], [FileNotFound])
      | Unreadable \<Rightarrow> ([], [CouldNotRead])
      | Opened raw_lines \<Rightarrow> parse_number_lines float_conv 0 raw_lines ([], []))"

text \<open>
  All tokens of a readable file: the tokens of every line that is not blank after
  stripping, in order.
\<close>

definition file_tokens :: "string list \<Rightarrow> string list" where
  "file_tokens raw_lines =
     concat (map line_tokens (filter (\<lambda>line. line \<noteq> []) (map strip raw_lines)))"

text \<open>The token an error record of kind \<open>TokenSkipped\<close> reports.\<close>

fun error_token :: "error_record \<Rightarrow> string" where
  "error_token (TokenSkipped line_no token) = token"
| "error_token _ = []"

text \<open>
  What becomes of one token in \<open>parse_integers_from_file\<close>: it yields a number when it
  passes \<open>is_valid_integer_token\<close> and \<open>int\<close> accepts it.
\<close>

definition integer_of_token :: "(string \<Rightarrow> int option) \<Rightarrow> string \<Rightarrow> int option" where
  "integer_of_token int_conv token =
     (if is_valid_integer_token token = Inr True then int_conv token else None)"

text \<open>A token as \<open>str.split()\<close> produces them: not empty and free of whitespace.\<close>

definition clean_token :: "string \<Rightarrow> bool" where
  "clean_token t = (t \<noteq> [] \<and> list_all (\<lambda>c. \<not> isspace c) t)"

section \<open>Word count (word_count.py)\<close>

text \<open>
  \<open>read_words_from_file\<close>. The inner loop appends the lower-cased token for every
  token that is not empty; the outer loop strips each raw line, records an empty line
  with its number, and otherwise splits the line at single spaces. The only handler is
  for \<open>OSError\<close>, which a missing file raises too.
\<close>

fun read_word_tokens :: "string list \<Rightarrow> string list \<Rightarrow> string list" where
  "read_word_tokens [] words = words"
| "read_word_tokens (token # tokens) words =
     (if token \<noteq> [] then read_word_tokens tokens (words @ [lower token])
      else read_word_tokens tokens words)"

fun read_word_lines ::
  "nat \<Rightarrow> string list \<Rightarrow> string list \<times> error_record list \<Rightarrow> string list \<times> error_record list" where
  "read_word_lines line_number [] st = st"
| "read_word_lines line_number (raw_line # rest) (words, errors) =
     (let line_number' = line_number + 1; line = strip raw_line in
      if line = [] then read_word_lines line_number' rest (words, errors @ [EmptyLine line_number'])
      else read_word_lines line_number' rest
             (read_word_tokens (split_sep CHR '' '' line) words, errors))"

definition read_words_from_file :: "file_content \<Rightarrow> string list \<times> error_record list" where
  "read_words_from_file file =
     (case file of
        Missing \<Rightarrow> ([], [ErrorOpening])
      | Unreadable \<Rightarrow> ([], [ErrorOpening])
      | Opened raw_lines \<Rightarrow> read_word_lines 0 raw_lines ([], []))"

text \<open>
  A Python \<open>dict\<close> keeps its keys in insertion order, and the report iterates over it,
  so the dictionary is an association list. Assigning to a key that is present
  replaces its value where it stands; assigning to a new key appends it.
\<close>

fun dict_set :: "'k \<Rightarrow> 'v \<Rightarrow> ('k \<times> 'v) list \<Rightarrow> ('k \<times> 'v) list" where
  "dict_set k v [] = [(k, v)]"
| "dict_set k v ((k', v') # rest) =
     (if k = k' then (k, v) # rest else (k', v') # dict_set k v rest)"

fun count_words_loop :: "string list \<Rightarrow> (string \<times> nat) list \<Rightarrow> (string \<times> nat) list" where
  "count_words_loop [] counts = counts"
| "count_words_loop (word # words) counts =
     (case map_of counts word of
        Some n \<Rightarrow> count_words_loop words (dict_set word (n + 1) counts)
      | None \<Rightarrow> count_words_loop words (dict_set word 1 counts))"

definition count_words :: "string list \<Rightarrow> (string \<times> nat) list" where
  "count_words words = count_words_loop words []"

text \<open>The distinct elements of a list in the order of their first occurrence.\<close>

fun first_seen :: "'a list \<Rightarrow> 'a list" where
  "first_seen [] = []"
| "first_seen (x # xs) = x # filter (\<lambda>y. y \<noteq> x) (first_seen xs)"

section \<open>Descriptive statistics (compute_statistics.py)\<close>

subsection \<open>Python floats\<close>

text \<open>
  A Python \<open>float\<close> is an IEEE 754 binary64 number. The model keeps its value: a finite
  double is the rational it denotes, next to the two infinities and NaN. The two zeros
  are one value here (\<open>==\<close> does not tell them apart either). Every arithmetic
  operation computes the exact result and rounds it to the nearest double, ties to the
  even significand, which is what the hardware operation behind Python's \<open>+\<close>,
  \<open>-\<close>, \<open>*\<close> and \<open>/\<close> does.
\<close>

datatype double = Finite rat | PosInf | NegInf | NaN

definition round_half_even :: "rat \<Rightarrow> int" where
  "round_half_even q =
     (let f = \<lfloor>q\<rfloor>; r = q - of_int f in
      if r < 1 / 2 then f
      else if 1 / 2 < r then f + 1
      else if even f then f else f + 1)"

text \<open>For \<open>q > 0\<close>, the exponent \<open>e\<close> with \<open>2^e \<le> q < 2^(e+1)\<close>.\<close>

definition floor_log2 :: "rat \<Rightarrow> int" where
  "floor_log2 q =
     (case quotient_of q of (a, b) \<Rightarrow>
        let e0 = bitlen a - bitlen b in if 2 powi e0 \<le> q then e0 else e0 - 1)"

text \<open>
  Rounding to binary64: 53 significant bits, so the spacing of the doubles around
  \<open>q\<close> is \<open>2^(e - 52)\<close> for the exponent \<open>e\<close> of \<open>q\<close>, and \<open>2^(-1074)\<close> below the
  normal range; a result beyond the largest double, \<open>(2^53 - 1) * 2^971\<close>
  (Python's \<open>sys.float_info.max\<close>), overflows to an infinity.
\<close>

definition max_double :: rat where
  "max_double = 179769313486231570814527423731704356798070567525844996598917476803157260780028538760589558632766878171540458953514382464234321326889464182768467546703537516986049910576551282076245490090389328944075868508455133942304583236903222948165808559332123348274797826204144723168738177180919299881250404026184124858368"

definition round_to_double :: "rat \<Rightarrow> double" where
  "round_to_double q =
     (if q = 0 then Finite 0
      else
        let e = max (floor_log2 \<bar>q\<bar>) (- 1022);
            ulp = 2 powi (e - 52);
            r = of_int (round_half_even (q / ulp)) * ulp
        in if max_double < \<bar>r\<bar> then (if 0 < q then PosInf else NegInf) else Finite r)"

text \<open>A rational is (the value of) a double when rounding leaves it as it is.\<close>

definition is_double :: "rat \<Rightarrow> bool" where
  "is_double q = (round_to_double q = Finite q)"

fun double_negative :: "double \<Rightarrow> bool" where
  "double_negative (Finite a) = (a < 0)"
| "double_negative NegInf = True"
| "double_negative _ = False"

fun double_add :: "double \<Rightarrow> double \<Rightarrow> double" where
  "double_add (Finite a) (Finite b) = round_to_double (a + b)"
| "double_add NaN _ = NaN"
| "double_add _ NaN = NaN"
| "double_add PosInf NegInf = NaN"
| "double_add NegInf PosInf = NaN"
| "double_add PosInf _ = PosInf"
| "double_add _ PosInf = PosInf"
| "double_add NegInf _ = NegInf"
| "double_add _ NegInf = NegInf"

fun double_neg :: "double \<Rightarrow> double" where
  "double_neg (Finite a) = Finite (- a)"
| "double_neg PosInf = NegInf"
| "double_neg NegInf = PosInf"
| "double_neg NaN = NaN"

definition double_sub :: "double \<Rightarrow> double \<Rightarrow> double" where
  "double_sub x y = double_add x (double_neg y)"

fun double_mul :: "double \<Rightarrow> double \<Rightarrow> double" where
  "double_mul (Finite a) (Finite b) = round_to_double (a * b)"
| "double_mul NaN _ = NaN"
| "double_mul _ NaN = NaN"
| "double_mul x y =
     (if x = Finite 0 \<or> y = Finite 0 then NaN
      else if double_negative x = double_negative y then PosInf else NegInf)"

text \<open>Division by a divisor that is not zero; \<open>py_truediv\<close> below sees to the zero.\<close>

fun double_div :: "double \<Rightarrow> double \<Rightarrow> double" where
  "double_div (Finite a) (Finite b) = round_to_double (a / b)"
| "double_div NaN _ = NaN"
| "double_div _ NaN = NaN"
| "double_div (Finite a) _ = Finite 0"
| "double_div x (Finite b) = (if double_negative x = (b < 0) then PosInf else NegInf)"
| "double_div _ _ = NaN"

text \<open>\<open>==\<close> and \<open><\<close> on floats: NaN equals nothing and is below or above nothing.\<close>

fun double_eq :: "double \<Rightarrow> double \<Rightarrow> bool" where
  "double_eq (Finite a) (Finite b) = (a = b)"
| "double_eq PosInf PosInf = True"
| "double_eq NegInf NegInf = True"
| "double_eq _ _ = False"

fun double_lt :: "double \<Rightarrow> double \<Rightarrow> bool" where
  "double_lt (Finite a) (Finite b) = (a < b)"
| "double_lt NaN _ = False"
| "double_lt _ NaN = False"
| "double_lt NegInf y = (y \<noteq> NegInf)"
| "double_lt x PosInf = (x \<noteq> PosInf)"
| "double_lt _ _ = False"

text \<open>
  \<open>x / y\<close> on floats raises \<open>ZeroDivisionError\<close> when the divisor is zero. An \<open>int\<close>
  operand is converted to the nearest double first (the counts of this program are
  lengths of lists, far below the range where the conversion would overflow).
\<close>

definition py_truediv :: "double \<Rightarrow> double \<Rightarrow> py_error + double" where
  "py_truediv x y = (if y = Finite 0 then Inl ZeroDivisionError else Inr (double_div x y))"

definition double_of_int :: "int \<Rightarrow> double" where
  "double_of_int n = round_to_double (of_int n)"

text \<open>
  \<open>sorted(xs)\<close>: a stable sort by \<open><\<close>, modelled as insertion from the right. (With
  a NaN in the list \<open><\<close> is not an order, and what Python's sort returns then is not
  modelled.)
\<close>

fun sorted_insert :: "double \<Rightarrow> double list \<Rightarrow> double list" where
  "sorted_insert x [] = [x]"
| "sorted_insert x (y # ys) = (if double_lt y x then y # sorted_insert x ys else x # y # ys)"

definition py_sorted :: "double list \<Rightarrow> double list" where
  "py_sorted xs = foldr sorted_insert xs []"

text \<open>\<open>xs[i]\<close>: a negative index counts from the end, an index out of range raises.\<close>

definition py_index :: "'a list \<Rightarrow> int \<Rightarrow> py_error + 'a" where
  "py_index xs i =
     (if 0 \<le> i \<and> i < int (length xs) then Inr (xs ! nat i)
      else if i < 0 \<and> - int (length xs) \<le> i then Inr (xs ! nat (int (length xs) + i))
      else Inl IndexError)"

subsection \<open>The statistics\<close>

text \<open>
  \<open>compute_mean\<close> and \<open>compute_population_variance\<close>: one pass that accumulates
  \<open>total\<close> and \<open>count\<close>, then \<open>total / count\<close>.
\<close>

definition compute_mean :: "double list \<Rightarrow> py_error + double" where
  "compute_mean values =
     (let (total, count) =
            fold (\<lambda>value (total, count). (double_add total value, count + 1)) values
              (Finite 0, 0 :: int)
      in py_truediv total (double_of_int count))"

definition compute_population_variance :: "double list \<Rightarrow> double \<Rightarrow> py_error + double" where
  "compute_population_variance values mean =
     (let (total, count) =
            fold (\<lambda>value (total, count).
                    let diff = double_sub value mean
                    in (double_add total (double_mul diff diff), count + 1)) values
              (Finite 0, 0 :: int)
      in py_truediv total (double_of_int count))"

definition compute_median :: "double list \<Rightarrow> py_error + double" where
  "compute_median sorted_values =
     (let size = int (length sorted_values); mid = size div 2 in
      if size mod 2 = 1 then py_index sorted_values mid
      else case py_index sorted_values (mid - 1) of
             Inl e \<Rightarrow> Inl e
           | Inr a \<Rightarrow>
               (case py_index sorted_values mid of
                  Inl e \<Rightarrow> Inl e
                | Inr b \<Rightarrow> py_truediv (double_add a b) (Finite 2)))"

text \<open>
  \<open>compute_mode\<close>. The loop over \<open>range(1, len(sorted_values))\<close> carries
  \<open>(max_count, current, modes)\<close>; its reads \<open>sorted_values[i]\<close> and
  \<open>sorted_values[i - 1]\<close> are in range, and \<open>sorted_values[-1]\<close> is the last element of
  a list that is not empty. \<open>None\<close> is Python's \<open>None\<close>, reported as "No mode".
\<close>

definition mode_step :: "double list \<Rightarrow> nat \<Rightarrow> nat \<times> nat \<times> double list \<Rightarrow> nat \<times> nat \<times> double list" where
  "mode_step sorted_values i = (\<lambda>(max_count, current, modes).
     if double_eq (sorted_values ! i) (sorted_values ! (i - 1)) then (max_count, current + 1, modes)
     else if current > max_count then (current, 1, [sorted_values ! (i - 1)])
     else if current = max_count \<and> current > 1 then (max_count, 1, modes @ [sorted_values ! (i - 1)])
     else (max_count, 1, modes))"

definition compute_mode :: "double list \<Rightarrow> double list option" where
  "compute_mode sorted_values =
     (if sorted_values = [] then None
      else
        let (max_count, current, modes) =
              fold (mode_step sorted_values) [1 ..< length sorted_values] (1, 1, []);
            modes' = (if current > max_count then [last sorted_values]
                      else if current = max_count \<and> current > 1 then modes @ [last sorted_values]
                      else modes)
        in if max_count = 1 then None else Some modes')"

text \<open>
  \<open>math.sqrt\<close> raises \<open>ValueError\<close> below zero and passes NaN and the positive infinity
  through; the correctly rounded root of a finite value that is not negative is the
  parameter \<open>sqrt_fn\<close>.
\<close>

definition math_sqrt :: "(rat \<Rightarrow> double) \<Rightarrow> double \<Rightarrow> py_error + double" where
  "math_sqrt sqrt_fn x =
     (case x of
        Finite a \<Rightarrow> if a < 0 then Inl ValueError else Inr (sqrt_fn a)
      | NegInf \<Rightarrow> Inl ValueError
      | _ \<Rightarrow> Inr x)"

text \<open>
  \<open>compute_statistics_for_file\<close>, without the timing and the text of the section: the
  result is the data the section prints, with the error list.
\<close>

datatype statistics_section =
    NoData
  | Statistics nat double double "double list option" double double

definition compute_statistics_for_file ::
  "(string \<Rightarrow> double option) \<Rightarrow> (rat \<Rightarrow> double) \<Rightarrow> file_content
     \<Rightarrow> py_error + (statistics_section \<times> error_record list)" where
  "compute_statistics_for_file float_conv sqrt_fn file =
     (case parse_numbers_from_file float_conv file of (numbers, errors) \<Rightarrow>
        if numbers = [] then Inr (NoData, errors)
        else
          let sorted_numbers = py_sorted numbers in
          case compute_mean numbers of
            Inl e \<Rightarrow> Inl e
          | Inr mean_val \<Rightarrow>
          (case compute_median sorted_numbers of
            Inl e \<Rightarrow> Inl e
          | Inr median_val \<Rightarrow>
          (let mode_val = compute_mode sorted_numbers in
           case compute_population_variance numbers mean_val of
            Inl e \<Rightarrow> Inl e
          | Inr variance_val \<Rightarrow>
          (case math_sqrt sqrt_fn variance_val of
            Inl e \<Rightarrow> Inl e
          | Inr std_dev_val \<Rightarrow>
              Inr (Statistics (length numbers) mean_val median_val mode_val
                     variance_val std_dev_val, errors)))))"

text \<open>The arguments \<open>math.sqrt\<close> accepts: everything but the negative numbers.\<close>

fun not_negative :: "double \<Rightarrow> bool" where
  "not_negative (Finite a) = (0 \<le> a)"
| "not_negative NegInf = False"
| "not_negative _ = True"

section \<open>The entry points and their exit codes\<close>




















section \<open>Sales totals (A5.2/compute_sales.py)\<close>





















section \<open>Properties of the base conversion\<close>

subsection \<open>The loops return, and what they return\<close>

lemma loop_variable_decreases:
  "0 < (n::int) \<Longrightarrow> 0 \<le> n div 2 \<and> nat (n div 2) < nat n \<and> 0 \<le> n div 16 \<and> nat (n div 16) < nat n"
  by auto

lemma to_binary_loop_returns: "\<exists>r. to_binary_loop n bits = Some r"
proof (induction "nat n" arbitrary: n bits rule: less_induct)
  case less
  show ?case
  proof (cases "n > 0")
    case True
    then have "nat (n div 2) < nat n"
      using loop_variable_decreases by blast
    from less[OF this] show ?thesis
      by (subst to_binary_loop.simps) (simp add: True)
  next
    case False
    then show ?thesis
      by (subst to_binary_loop.simps) simp
  qed
qed

lemma to_hex_loop_returns: "\<exists>r. to_hex_loop n digits = Some r"
proof (induction "nat n" arbitrary: n digits rule: less_induct)
  case less
  show ?case
  proof (cases "n > 0")
    case True
    then have "nat (n div 16) < nat n"
      using loop_variable_decreases by blast
    from less[OF this] show ?thesis
      by (subst to_hex_loop.simps) (simp add: True)
  next
    case False
    then show ?thesis
      by (subst to_hex_loop.simps) simp
  qed
qed

lemma parse_digits_append:
  "parse_digits b acc (xs @ ys) =
     (case parse_digits b acc xs of None \<Rightarrow> None | Some a \<Rightarrow> parse_digits b a ys)"
  by (induction xs arbitrary: acc) (auto split: option.splits)

lemma hex_digit_value:
  assumes "k < 16"
  shows "digit_value (HEX_DIGITS ! k) = Some k"
proof -
  from assms have "k \<in> {0,1,2,3,4,5,6,7,8,9,10,11,12,13,14,15}"
    by simp arith
  then show ?thesis
    by (auto simp: HEX_DIGITS_def digit_value_def)
qed

text \<open>
  The index \<open>remainder\<close> into \<open>HEX_DIGITS\<close> is always in range, so the read never
  raises \<open>IndexError\<close>.
\<close>

lemma hex_index_in_range: "nat (n mod 16) < length HEX_DIGITS"
  by (simp add: HEX_DIGITS_def)

lemma to_binary_loop_result:
  "0 \<le> n \<Longrightarrow> \<exists>ds. to_binary_loop n bits = Some (bits @ ds) \<and>
       parse_digits 2 0 (concat (rev ds)) = Some n \<and> (0 < n \<longrightarrow> concat (rev ds) \<noteq> [])"
proof (induction "nat n" arbitrary: n bits rule: less_induct)
  case less
  show ?case
  proof (cases "n > 0")
    case True
    define d where "d = (if n mod 2 = 1 then ''1'' else ''0'')"
    have lt: "nat (n div 2) < nat n" and ge: "0 \<le> n div 2"
      using True by simp_all
    from less(1)[OF lt ge, of "bits @ [d]"] obtain ds where
      ds: "to_binary_loop (n div 2) (bits @ [d]) = Some ((bits @ [d]) @ ds)"
          "parse_digits 2 0 (concat (rev ds)) = Some (n div 2)"
      by blast
    have step: "to_binary_loop n bits = to_binary_loop (n div 2) (bits @ [d])"
      by (subst to_binary_loop.simps) (simp add: True d_def)
    have dv: "parse_digits 2 (n div 2) d = Some n"
      by (auto simp: d_def digit_value_def) presburger+
    have "parse_digits 2 0 (concat (rev (d # ds))) = Some n"
      by (simp add: parse_digits_append ds(2) dv)
    moreover have "concat (rev (d # ds)) \<noteq> []"
      by (simp add: d_def)
    moreover have "to_binary_loop n bits = Some (bits @ d # ds)"
      using step ds(1) by simp
    ultimately show ?thesis by blast
  next
    case False
    with less(2) have "n = 0" by simp
    then show ?thesis
      by (subst to_binary_loop.simps) simp
  qed
qed

lemma to_hex_loop_result:
  "0 \<le> n \<Longrightarrow> \<exists>ds. to_hex_loop n digits = Some (digits @ ds) \<and>
       parse_digits 16 0 (concat (rev ds)) = Some n \<and> (0 < n \<longrightarrow> concat (rev ds) \<noteq> [])"
proof (induction "nat n" arbitrary: n digits rule: less_induct)
  case less
  show ?case
  proof (cases "n > 0")
    case True
    define d where "d = [HEX_DIGITS ! nat (n mod 16)]"
    have lt: "nat (n div 16) < nat n" and ge: "0 \<le> n div 16"
      using True by simp_all
    from less(1)[OF lt ge, of "digits @ [d]"] obtain ds where
      ds: "to_hex_loop (n div 16) (digits @ [d]) = Some ((digits @ [d]) @ ds)"
          "parse_digits 16 0 (concat (rev ds)) = Some (n div 16)"
      by blast
    have step: "to_hex_loop n digits = to_hex_loop (n div 16) (digits @ [d])"
      by (subst to_hex_loop.simps) (simp add: True d_def)
    have "nat (n mod 16) < 16" by simp
    from hex_digit_value[OF this]
    have dv: "parse_digits 16 (n div 16) d = Some n"
      by (simp add: d_def)
    have "parse_digits 16 0 (concat (rev (d # ds))) = Some n"
      by (simp add: parse_digits_append ds(2) dv)
    moreover have "concat (rev (d # ds)) \<noteq> []"
      by (simp add: d_def)
    moreover have "to_hex_loop n digits = Some (digits @ d # ds)"
      using step ds(1) by simp
    ultimately show ?thesis by blast
  next
    case False
    with less(2) have "n = 0" by simp
    then show ?thesis
      by (subst to_hex_loop.simps) simp
  qed
qed

lemma to_binary_str_magnitude:
  "\<exists>mag. to_binary_str n = Some ((if n < 0 then ''-'' else '''') @ mag) \<and>
         parse_base 2 mag = Some \<bar>n\<bar>"
proof (cases "n = 0")
  case True
  then show ?thesis
    by (simp add: to_binary_str_def parse_base_def digit_value_def)
next
  case False
  then have pos: "0 < \<bar>n\<bar>" by simp
  from to_binary_loop_result[of "\<bar>n\<bar>" "[]"] pos obtain ds where
    ds: "to_binary_loop \<bar>n\<bar> [] = Some ds" "parse_digits 2 0 (concat (rev ds)) = Some \<bar>n\<bar>"
        "concat (rev ds) \<noteq> []"
    by auto
  have "(if n < 0 then - n else n) = \<bar>n\<bar>" by simp
  then have "to_binary_str n = Some ((if n < 0 then ''-'' else '''') @ concat (rev ds))"
    using False ds(1) by (simp add: to_binary_str_def Let_def)
  moreover have "parse_base 2 (concat (rev ds)) = Some \<bar>n\<bar>"
    using ds(2,3) by (simp add: parse_base_def)
  ultimately show ?thesis by blast
qed

lemma to_hex_str_magnitude:
  "\<exists>mag. to_hex_str n = Some ((if n < 0 then ''-'' else '''') @ mag) \<and>
         parse_base 16 mag = Some \<bar>n\<bar>"
proof (cases "n = 0")
  case True
  then show ?thesis
    by (simp add: to_hex_str_def parse_base_def digit_value_def)
next
  case False
  then have pos: "0 < \<bar>n\<bar>" by simp
  from to_hex_loop_result[of "\<bar>n\<bar>" "[]"] pos obtain ds where
    ds: "to_hex_loop \<bar>n\<bar> [] = Some ds" "parse_digits 16 0 (concat (rev ds)) = Some \<bar>n\<bar>"
        "concat (rev ds) \<noteq> []"
    by auto
  have "(if n < 0 then - n else n) = \<bar>n\<bar>" by simp
  then have "to_hex_str n = Some ((if n < 0 then ''-'' else '''') @ concat (rev ds))"
    using False ds(1) by (simp add: to_hex_str_def Let_def)
  moreover have "parse_base 16 (concat (rev ds)) = Some \<bar>n\<bar>"
    using ds(2,3) by (simp add: parse_base_def)
  ultimately show ?thesis by blast
qed

text \<open>
  Claim C1. For every integer \<open>N\<close>, \<open>to_binary_str N\<close> is an optional minus sign
  (present exactly when \<open>N\<close> is negative) followed by a digit string that, read as a
  base-2 numeral, is \<open>|N|\<close>; \<open>to_hex_str N\<close> is the same with a base-16 numeral.
  Zero converts to \<open>0\<close> in both bases, and \<open>-5\<close> to \<open>-101\<close> and \<open>-5\<close>.
\<close>

theorem conversion_roundtrip:
  "(\<exists>mag. to_binary_str N = Some ((if N < 0 then ''-'' else '''') @ mag) \<and>
          parse_base 2 mag = Some \<bar>N\<bar>) \<and>
   (\<exists>mag. to_hex_str N = Some ((if N < 0 then ''-'' else '''') @ mag) \<and>
          parse_base 16 mag = Some \<bar>N\<bar>) \<and>
   to_binary_str 0 = Some ''0'' \<and> to_hex_str 0 = Some ''0'' \<and>
   to_binary_str (- 5) = Some ''-101'' \<and> to_hex_str (- 5) = Some ''-5''"
proof -
  have "to_binary_str 0 = Some ''0''" "to_hex_str 0 = Some ''0''"
    by (simp_all add: to_binary_str_def to_hex_str_def)
  moreover have "to_binary_str (- 5) = Some ''-101''"
    by code_simp
  moreover have "to_hex_str (- 5) = Some ''-5''"
    by code_simp
  ultimately show ?thesis
    using to_binary_str_magnitude[of N] to_hex_str_magnitude[of N] by blast
qed

text \<open>
  Claim C10. Both conversions return for every integer: after the zero and sign
  handling the loop variable is positive, each iteration replaces it by its floor
  quotient by 2 (by 16), which is smaller and not negative
  (\<open>loop_variable_decreases\<close>), so each loop leaves after finitely many iterations,
  whatever it has collected so far.
\<close>

theorem conversion_terminates:
  "to_binary_loop n bits \<noteq> None \<and> to_hex_loop n digits \<noteq> None \<and>
   to_binary_str number \<noteq> None \<and> to_hex_str number \<noteq> None"
proof -
  have "to_binary_loop n bits \<noteq> None"
    using to_binary_loop_returns[of n bits] by auto
  moreover have "to_hex_loop n digits \<noteq> None"
    using to_hex_loop_returns[of n digits] by auto
  moreover have "to_binary_str number \<noteq> None"
    using to_binary_loop_returns[of "if number < 0 then - number else number" "[]"]
    by (auto simp: to_binary_str_def Let_def)
  moreover have "to_hex_str number \<noteq> None"
    using to_hex_loop_returns[of "if number < 0 then - number else number" "[]"]
    by (auto simp: to_hex_str_def Let_def)
  ultimately show ?thesis by blast
qed

section \<open>Properties of token validation\<close>

lemma char_between_digits:
  "(CHR ''0'' \<le> c \<and> c \<le> CHR ''9'') = is_decimal_digit c"
proof -
  have "(CHR ''0'' \<le> c \<and> c \<le> CHR ''9'') = (48 \<le> (of_char c :: nat) \<and> (of_char c :: nat) \<le> 57)"
    by (simp add: less_eq_char_def)
  also have "\<dots> = ((of_char c :: nat) \<in> {48,49,50,51,52,53,54,55,56,57})"
    by simp arith
  also have "\<dots> = ((of_char c :: nat) \<in> of_char ` set ''0123456789'')"
    by simp
  also have "\<dots> = (c \<in> set ''0123456789'')"
    by (rule inj_image_mem_iff[OF inj_of_char])
  finally show ?thesis
    by (simp add: is_decimal_digit_def)
qed

lemma all_digits_loop_iff: "all_digits_loop cs = list_all is_decimal_digit cs"
  by (induction cs) (auto simp: char_between_digits[symmetric] not_less)

lemma sign_not_digit: "\<not> is_decimal_digit CHR ''+''" "\<not> is_decimal_digit CHR ''-''"
  by (simp_all add: is_decimal_digit_def)

lemma matches_integer_pattern_code:
  "matches_integer_pattern t =
     (case t of [] \<Rightarrow> False
      | c # cs \<Rightarrow> if c = CHR ''+'' \<or> c = CHR ''-'' then cs \<noteq> [] \<and> list_all is_decimal_digit cs
                 else list_all is_decimal_digit (c # cs))"
proof (cases t)
  case Nil
  then show ?thesis by (simp add: matches_integer_pattern_def)
next
  case (Cons c cs)
  show ?thesis
  proof (cases "c = CHR ''+'' \<or> c = CHR ''-''")
    case True
    have "matches_integer_pattern (c # cs) = (cs \<noteq> [] \<and> list_all is_decimal_digit cs)"
    proof
      assume "matches_integer_pattern (c # cs)"
      then obtain sign digits where
        sd: "c # cs = sign @ digits" "sign = [] \<or> sign = ''+'' \<or> sign = ''-''"
            "digits \<noteq> []" "list_all is_decimal_digit digits"
        unfolding matches_integer_pattern_def by blast
      from sd(2) show "cs \<noteq> [] \<and> list_all is_decimal_digit cs"
      proof (elim disjE)
        assume "sign = []"
        with sd(1,4) have "is_decimal_digit c" by auto
        with True sign_not_digit show ?thesis by auto
      next
        assume "sign = ''+''"
        with sd show ?thesis by auto
      next
        assume "sign = ''-''"
        with sd show ?thesis by auto
      qed
    next
      assume a: "cs \<noteq> [] \<and> list_all is_decimal_digit cs"
      have "c # cs = [c] @ cs" by simp
      with a True show "matches_integer_pattern (c # cs)"
        unfolding matches_integer_pattern_def by blast
    qed
    with True Cons show ?thesis by simp
  next
    case False
    have "matches_integer_pattern (c # cs) = list_all is_decimal_digit (c # cs)"
    proof
      assume "matches_integer_pattern (c # cs)"
      then obtain sign digits where
        sd: "c # cs = sign @ digits" "sign = [] \<or> sign = ''+'' \<or> sign = ''-''"
            "digits \<noteq> []" "list_all is_decimal_digit digits"
        unfolding matches_integer_pattern_def by blast
      from sd(2) have "sign = []" using False sd(1) by auto
      with sd show "list_all is_decimal_digit (c # cs)" by simp
    next
      assume a: "list_all is_decimal_digit (c # cs)"
      have "c # cs = [] @ (c # cs)" by simp
      with a show "matches_integer_pattern (c # cs)"
        unfolding matches_integer_pattern_def by blast
    qed
    with False Cons show ?thesis by simp
  qed
qed

lemma is_valid_integer_token_nonempty:
  "is_valid_integer_token (c # cs) = Inr (matches_integer_pattern (c # cs))"
  by (auto simp: is_valid_integer_token_def matches_integer_pattern_code all_digits_loop_iff)

lemma is_valid_integer_token_True_iff:
  "(is_valid_integer_token t = Inr True) = matches_integer_pattern t"
  by (cases t) (simp_all add: is_valid_integer_token_nonempty, simp_all add: is_valid_integer_token_def matches_integer_pattern_code)

text \<open>
  Claim C6. A token is classified as a valid integer exactly when it matches
  \<open>[+-]?[0-9]+\<close>. On a token that is not empty the function returns the truth value
  of the match (the tool never passes it an empty token, on which it would raise
  \<open>IndexError\<close>, see \<open>line_tokens_clean\<close>), so a token with a character after the
  first that is not a decimal digit (a decimal point, an exponent letter, ...) or with
  a first character that is neither a sign nor a digit is invalid; the lone signs are
  invalid, and the examples of the docstring are classified as it says.
\<close>

theorem integer_token_validity:
  "(is_valid_integer_token t = Inr True) = matches_integer_pattern t \<and>
   is_valid_integer_token (c # cs) = Inr (matches_integer_pattern (c # cs)) \<and>
   (\<not> list_all is_decimal_digit cs \<longrightarrow> is_valid_integer_token (c # cs) = Inr False) \<and>
   (c \<notin> set ''+-0123456789'' \<longrightarrow> is_valid_integer_token (c # cs) = Inr False) \<and>
   is_valid_integer_token ''+'' = Inr False \<and> is_valid_integer_token ''-'' = Inr False \<and>
   is_valid_integer_token ''3.14'' = Inr False \<and> is_valid_integer_token ''1e3'' = Inr False \<and>
   is_valid_integer_token ''abc'' = Inr False \<and>
   is_valid_integer_token ''10'' = Inr True \<and> is_valid_integer_token ''-3'' = Inr True \<and>
   is_valid_integer_token ''+7'' = Inr True"
proof -
  have "\<not> list_all is_decimal_digit cs \<longrightarrow> is_valid_integer_token (c # cs) = Inr False"
    by (simp add: is_valid_integer_token_nonempty matches_integer_pattern_code)
  moreover have "c \<notin> set ''+-0123456789'' \<longrightarrow> is_valid_integer_token (c # cs) = Inr False"
    by (simp add: is_valid_integer_token_nonempty matches_integer_pattern_code is_decimal_digit_def)
  moreover have "is_valid_integer_token ''+'' = Inr False" "is_valid_integer_token ''-'' = Inr False"
    "is_valid_integer_token ''3.14'' = Inr False" "is_valid_integer_token ''1e3'' = Inr False"
    "is_valid_integer_token ''abc'' = Inr False"
    "is_valid_integer_token ''10'' = Inr True" "is_valid_integer_token ''-3'' = Inr True"
    "is_valid_integer_token ''+7'' = Inr True"
    by code_simp+
  ultimately show ?thesis
    using is_valid_integer_token_True_iff[of t] is_valid_integer_token_nonempty[of c cs]
    by blast
qed

theorem integer_token_validity_witness:
  "\<not> list_all is_decimal_digit ''.14'' \<and> is_valid_integer_token ''3.14'' = Inr False \<and>
   CHR ''a'' \<notin> set ''+-0123456789'' \<and> is_valid_integer_token ''abc'' = Inr False \<and>
   matches_integer_pattern ''-3''"
proof -
  have h1: "\<not> list_all is_decimal_digit ''.14''"
    by (simp add: is_decimal_digit_def)
  have h2: "CHR ''a'' \<notin> set ''+-0123456789''"
    by simp
  from integer_token_validity[of "''-3''" "CHR ''3''" "''.14''"] h1
  have "is_valid_integer_token ''3.14'' = Inr False \<and> matches_integer_pattern ''-3''"
    by blast
  moreover from integer_token_validity[of "''-3''" "CHR ''a''" "''bc''"] h2
  have "is_valid_integer_token ''abc'' = Inr False"
    by blast
  ultimately show ?thesis using h1 h2 by blast
qed

section \<open>Properties of the two token parsers\<close>

lemma split_ws_from_clean:
  "list_all (\<lambda>c. \<not> isspace c) cur \<Longrightarrow> list_all clean_token (split_ws_from cur s)"
  by (induction s arbitrary: cur) (auto simp: clean_token_def)

lemma line_tokens_clean: "list_all clean_token (line_tokens line)"
proof -
  have "list_all clean_token (split_ws part)" for part
    using split_ws_from_clean[of "[]" part] by (simp add: split_ws_def)
  then show ?thesis
    by (simp add: line_tokens_def list_all_iff)
qed

lemma strip_clean: "clean_token t \<Longrightarrow> strip t = t"
proof -
  assume c: "clean_token t"
  have dw: "dropWhile isspace u = u" if "list_all (\<lambda>c. \<not> isspace c) u" for u
    using that by (cases u) auto
  have "list_all (\<lambda>c. \<not> isspace c) (rev t)"
    using c by (simp add: clean_token_def list_all_iff)
  with c show ?thesis
    by (simp add: strip_def dw clean_token_def)
qed

lemma parse_integer_tokens_partition:
  "list_all clean_token tokens \<Longrightarrow>
   parse_integer_tokens int_conv line_no tokens (numbers, errors) =
     Inr (numbers @ List.map_filter (integer_of_token int_conv) tokens,
          errors @ map (TokenSkipped line_no)
                     (filter (\<lambda>t. integer_of_token int_conv t = None) tokens))"
proof (induction tokens arbitrary: numbers errors)
  case Nil
  then show ?case by (simp add: List.map_filter_simps)
next
  case (Cons token tokens)
  then have ct: "clean_token token" and rest: "list_all clean_token tokens" by simp_all
  have st: "strip token = token" and ne: "token \<noteq> []"
    using ct strip_clean by (auto simp: clean_token_def)
  from ne obtain c cs where tok: "token = c # cs" by (cases token) auto
  have valid: "is_valid_integer_token token = Inr (matches_integer_pattern token)"
    unfolding tok by (rule is_valid_integer_token_nonempty)
  show ?case
  proof (cases "matches_integer_pattern token")
    case False
    then show ?thesis
      using Cons.IH[OF rest] st ne valid
      by (simp add: integer_of_token_def List.map_filter_simps)
  next
    case True
    then show ?thesis
      using Cons.IH[OF rest] st ne valid
      by (cases "int_conv token") (simp_all add: integer_of_token_def List.map_filter_simps)
  qed
qed

lemma map_filter_append: "List.map_filter f (xs @ ys) = List.map_filter f xs @ List.map_filter f ys"
  by (simp add: List.map_filter_def)

lemma file_tokens_Cons:
  "file_tokens (raw_line # rest) =
     (if strip raw_line = [] then file_tokens rest
      else line_tokens (strip raw_line) @ file_tokens rest)"
  by (simp add: file_tokens_def)

lemma parse_integer_lines_partition:
  "\<exists>errors'. parse_integer_lines int_conv line_no raw_lines (numbers, errors) =
     Inr (numbers @ List.map_filter (integer_of_token int_conv) (file_tokens raw_lines), errors') \<and>
     map error_token errors' = map error_token errors @
        filter (\<lambda>t. integer_of_token int_conv t = None) (file_tokens raw_lines)"
proof (induction raw_lines arbitrary: line_no numbers errors)
  case Nil
  then show ?case by (simp add: file_tokens_def List.map_filter_simps)
next
  case (Cons raw_line rest)
  show ?case
  proof (cases "strip raw_line = []")
    case True
    then show ?thesis
      using Cons.IH[of "line_no + 1" numbers errors] by (simp add: file_tokens_Cons)
  next
    case False
    let ?toks = "line_tokens (strip raw_line)"
    let ?n = "numbers @ List.map_filter (integer_of_token int_conv) ?toks"
    let ?e = "errors @ map (TokenSkipped (line_no + 1))
                     (filter (\<lambda>t. integer_of_token int_conv t = None) ?toks)"
    have step: "parse_integer_tokens int_conv (line_no + 1) ?toks (numbers, errors) = Inr (?n, ?e)"
      by (rule parse_integer_tokens_partition[OF line_tokens_clean])
    from Cons.IH[of "line_no + 1" ?n ?e] obtain errors' where
      e: "parse_integer_lines int_conv (line_no + 1) rest (?n, ?e) =
            Inr (?n @ List.map_filter (integer_of_token int_conv) (file_tokens rest), errors')"
         "map error_token errors' = map error_token ?e @
            filter (\<lambda>t. integer_of_token int_conv t = None) (file_tokens rest)"
      by blast
    have "parse_integer_lines int_conv line_no (raw_line # rest) (numbers, errors) =
            Inr (numbers @ List.map_filter (integer_of_token int_conv) (file_tokens (raw_line # rest)), errors')"
      using False step e(1) by (simp add: file_tokens_Cons map_filter_append)
    moreover have "map error_token errors' = map error_token errors @
        filter (\<lambda>t. integer_of_token int_conv t = None) (file_tokens (raw_line # rest))"
      using False e(2) by (simp add: file_tokens_Cons comp_def)
    ultimately show ?thesis by blast
  qed
qed

lemma parse_number_tokens_partition:
  "parse_number_tokens float_conv line_no tokens (numbers, errors) =
     (numbers @ List.map_filter float_conv tokens,
      errors @ map (TokenSkipped line_no) (filter (\<lambda>t. float_conv t = None) tokens))"
  by (induction tokens arbitrary: numbers errors)
     (auto simp: List.map_filter_simps split: option.splits)

lemma parse_number_lines_partition:
  "\<exists>errors'. parse_number_lines float_conv line_no raw_lines (numbers, errors) =
     (numbers @ List.map_filter float_conv (file_tokens raw_lines), errors') \<and>
     map error_token errors' = map error_token errors @
        filter (\<lambda>t. float_conv t = None) (file_tokens raw_lines)"
proof (induction raw_lines arbitrary: line_no numbers errors)
  case Nil
  then show ?case by (simp add: file_tokens_def List.map_filter_simps)
next
  case (Cons raw_line rest)
  show ?case
  proof (cases "strip raw_line = []")
    case True
    then show ?thesis
      using Cons.IH[of "line_no + 1" numbers errors] by (simp add: file_tokens_Cons)
  next
    case False
    let ?toks = "line_tokens (strip raw_line)"
    let ?n = "numbers @ List.map_filter float_conv ?toks"
    let ?e = "errors @ map (TokenSkipped (line_no + 1)) (filter (\<lambda>t. float_conv t = None) ?toks)"
    from Cons.IH[of "line_no + 1" ?n ?e] obtain errors' where
      e: "parse_number_lines float_conv (line_no + 1) rest (?n, ?e) =
            (?n @ List.map_filter float_conv (file_tokens rest), errors')"
         "map error_token errors' = map error_token ?e @
            filter (\<lambda>t. float_conv t = None) (file_tokens rest)"
      by blast
    have "parse_number_lines float_conv line_no (raw_line # rest) (numbers, errors) =
            (numbers @ List.map_filter float_conv (file_tokens (raw_line # rest)), errors')"
      using False e(1) by (simp add: file_tokens_Cons map_filter_append parse_number_tokens_partition)
    moreover have "map error_token errors' = map error_token errors @
        filter (\<lambda>t. float_conv t = None) (file_tokens (raw_line # rest))"
      using False e(2) by (simp add: file_tokens_Cons comp_def)
    ultimately show ?thesis by blast
  qed
qed

lemma partition_count:
  "length (List.map_filter f xs) + length (filter (\<lambda>t. f t = None) xs) = length xs"
  by (induction xs) (auto simp: List.map_filter_simps split: option.splits)

text \<open>
  Claim C7. For a readable file, the integer parser returns normally, and both parsers
  split the file's tokens in two: the numbers are the values of the tokens that are
  accepted, in order, and the token-level error records report exactly the tokens that
  are not, in order. Hence the number of parsed values plus the number of error records
  is the number of tokens. This holds whatever the built-in conversions accept.
\<close>

theorem token_classification_count:
  "(\<exists>numbers errors.
      parse_integers_from_file int_conv (Opened raw_lines) = Inr (numbers, errors) \<and>
      numbers = List.map_filter (integer_of_token int_conv) (file_tokens raw_lines) \<and>
      map error_token errors =
        filter (\<lambda>t. integer_of_token int_conv t = None) (file_tokens raw_lines) \<and>
      length numbers + length errors = length (file_tokens raw_lines)) \<and>
   (\<exists>numbers errors.
      parse_numbers_from_file float_conv (Opened raw_lines) = (numbers, errors) \<and>
      numbers = List.map_filter float_conv (file_tokens raw_lines) \<and>
      map error_token errors = filter (\<lambda>t. float_conv t = None) (file_tokens raw_lines) \<and>
      length numbers + length errors = length (file_tokens raw_lines))"
proof -
  from parse_integer_lines_partition[of int_conv 0 raw_lines "[]" "[]"] obtain ei where
    ei: "parse_integer_lines int_conv 0 raw_lines ([], []) =
           Inr (List.map_filter (integer_of_token int_conv) (file_tokens raw_lines), ei)"
        "map error_token ei = filter (\<lambda>t. integer_of_token int_conv t = None) (file_tokens raw_lines)"
    by auto
  from ei(2) have "length ei = length (filter (\<lambda>t. integer_of_token int_conv t = None) (file_tokens raw_lines))"
    by (metis length_map)
  then have ci: "length (List.map_filter (integer_of_token int_conv) (file_tokens raw_lines)) + length ei
       = length (file_tokens raw_lines)"
    using partition_count[of "integer_of_token int_conv" "file_tokens raw_lines"] by simp
  from parse_number_lines_partition[of float_conv 0 raw_lines "[]" "[]"] obtain ef where
    ef: "parse_number_lines float_conv 0 raw_lines ([], []) =
           (List.map_filter float_conv (file_tokens raw_lines), ef)"
        "map error_token ef = filter (\<lambda>t. float_conv t = None) (file_tokens raw_lines)"
    by auto
  from ef(2) have "length ef = length (filter (\<lambda>t. float_conv t = None) (file_tokens raw_lines))"
    by (metis length_map)
  then have cf: "length (List.map_filter float_conv (file_tokens raw_lines)) + length ef
       = length (file_tokens raw_lines)"
    using partition_count[of float_conv "file_tokens raw_lines"] by simp
  show ?thesis
    using ei ci ef cf by (simp add: parse_integers_from_file_def parse_numbers_from_file_def)
qed

section \<open>Properties of the word count\<close>

lemma set_first_seen [simp]: "set (first_seen xs) = set xs"
  by (induction xs) auto

lemma distinct_first_seen [simp]: "distinct (first_seen xs)"
  by (induction xs) auto

lemma map_fst_dict_set:
  "map fst (dict_set k v d) = (if k \<in> fst ` set d then map fst d else map fst d @ [k])"
  by (induction d) (fastforce simp: image_iff)+

lemma map_of_dict_set: "map_of (dict_set k v d) = (map_of d)(k \<mapsto> v)"
  by (induction d) auto

lemma map_of_Some_key: "map_of d k = Some v \<Longrightarrow> k \<in> fst ` set d"
  by (metis map_of_eq_None_iff option.distinct(1))

lemma count_words_loop_keys:
  "map fst (count_words_loop ws d) =
     map fst d @ filter (\<lambda>w. w \<notin> fst ` set d) (first_seen ws)"
proof (induction ws arbitrary: d)
  case Nil
  then show ?case by simp
next
  case (Cons w ws)
  show ?case
  proof (cases "map_of d w")
    case None
    then have nk: "w \<notin> fst ` set d" by (simp add: map_of_eq_None_iff)
    have keys: "fst ` set (dict_set w 1 d) = insert w (fst ` set d)"
      using map_fst_dict_set[of w 1 d] nk by (metis (no_types, lifting) list.set_map set_append list.simps(15) Un_insert_right sup_bot.right_neutral empty_set)
    have "filter (\<lambda>x. x \<notin> insert w (fst ` set d)) (first_seen ws)
        = filter (\<lambda>x. x \<notin> fst ` set d) (filter (\<lambda>y. y \<noteq> w) (first_seen ws))"
      by (auto intro: filter_cong)
    then show ?thesis
      using None nk Cons.IH[of "dict_set w 1 d"] keys
      by (simp add: map_fst_dict_set)
  next
    case (Some n)
    then have k: "w \<in> fst ` set d" by (rule map_of_Some_key)
    have keys: "fst ` set (dict_set w (n + 1) d) = fst ` set d"
      using map_fst_dict_set[of w "n + 1" d] k by (metis list.set_map)
    have "filter (\<lambda>x. x \<notin> fst ` set d) (first_seen ws)
        = filter (\<lambda>x. x \<notin> fst ` set d) (filter (\<lambda>y. y \<noteq> w) (first_seen ws))"
      using k by (auto intro: filter_cong)
    then show ?thesis
      using Some k Cons.IH[of "dict_set w (n + 1) d"] keys
      by (simp add: map_fst_dict_set)
  qed
qed

lemma count_words_loop_lookup:
  "map_of (count_words_loop ws d) k =
     (case map_of d k of
        Some n \<Rightarrow> Some (n + count_list ws k)
      | None \<Rightarrow> if k \<in> set ws then Some (count_list ws k) else None)"
proof (induction ws arbitrary: d)
  case Nil
  then show ?case by (simp split: option.splits)
next
  case (Cons w ws)
  show ?case
    by (cases "map_of d w") (auto simp: Cons.IH map_of_dict_set split: option.splits)
qed

lemma assoc_list_by_keys:
  "distinct (map fst d) \<Longrightarrow> d = map (\<lambda>k. (k, the (map_of d k))) (map fst d)"
proof (induction d)
  case Nil
  then show ?case by simp
next
  case (Cons p d)
  obtain k v where p: "p = (k, v)" by (cases p)
  from Cons.prems p have nk: "k \<notin> fst ` set d" and dd: "distinct (map fst d)" by auto
  have "map (\<lambda>k'. (k', the (map_of (p # d) k'))) (map fst d) = map (\<lambda>k'. (k', the (map_of d k'))) (map fst d)"
    using nk p by (auto simp: image_iff)
  with Cons.IH[OF dd] p show ?case by simp
qed

lemma count_words_eq:
  "count_words ws = map (\<lambda>w. (w, count_list ws w)) (first_seen ws)"
proof -
  have keys: "map fst (count_words ws) = first_seen ws"
    using count_words_loop_keys[of ws "[]"] by (simp add: count_words_def)
  then have "distinct (map fst (count_words ws))" by simp
  from assoc_list_by_keys[OF this] keys
  have "count_words ws = map (\<lambda>k. (k, the (map_of (count_words ws) k))) (first_seen ws)"
    by simp
  also have "\<dots> = map (\<lambda>w. (w, count_list ws w)) (first_seen ws)"
    using count_words_loop_lookup[of ws "[]"] by (auto simp: count_words_def)
  finally show ?thesis .
qed

lemma read_word_tokens_eq:
  "read_word_tokens tokens words = words @ map lower (filter (\<lambda>t. t \<noteq> []) tokens)"
  by (induction tokens arbitrary: words) auto

lemma read_word_lines_eq:
  "read_word_lines n raw_lines (words, errors) =
     (words @ map lower (filter (\<lambda>t. t \<noteq> [])
         (concat (map (split_sep CHR '' '') (filter (\<lambda>l. l \<noteq> []) (map strip raw_lines))))),
      errors @ map (EmptyLine \<circ> fst)
         (filter (\<lambda>(i, l). strip l = []) (zip [n + 1 ..< n + 1 + length raw_lines] raw_lines)))"
proof (induction raw_lines arbitrary: n words errors)
  case Nil
  then show ?case by simp
next
  case (Cons raw_line rest)
  have upt: "[n + 1 ..< n + 1 + length (raw_line # rest)] = (n + 1) # [n + 1 + 1 ..< n + 1 + 1 + length rest]"
    by (subst upt_rec) simp
  show ?case
    unfolding upt
    by (simp add: Cons.IH read_word_tokens_eq Let_def)
qed

text \<open>
  Claim C8. For a readable file, the words are the lower-cased non-empty pieces that
  splitting each stripped, non-blank line at single spaces gives, in order, with
  nothing else done to them; the dictionary lists each distinct word once, in the
  order of first occurrence, with its number of occurrences. A line that is blank
  after stripping is recorded as an error with its line number and gives no word.
  The input \<open>a A b\<close> without a final newline yields \<open>{a: 2, b: 1}\<close>. Lower-casing
  and stripping are Python's on accented letters and on the no-break space too: the two
  spellings of \<open>0xC9 t 0xE9\<close> count as one word, and a line of a no-break space alone
  is an empty line.
\<close>

theorem word_count_mapping:
  "(\<exists>words errors.
      read_words_from_file (Opened raw_lines) = (words, errors) \<and>
      words = map lower (filter (\<lambda>t. t \<noteq> [])
                (concat (map (split_sep CHR '' '') (filter (\<lambda>l. l \<noteq> []) (map strip raw_lines))))) \<and>
      errors = map (EmptyLine \<circ> fst)
                 (filter (\<lambda>(i, l). strip l = []) (zip [1 ..< 1 + length raw_lines] raw_lines)) \<and>
      count_words words = map (\<lambda>w. (w, count_list words w)) (first_seen words)) \<and>
   count_words (fst (read_words_from_file (Opened [''a A b'']))) = [(''a'', 2), (''b'', 1)] \<and>
   read_words_from_file (Opened [''a\<newline>'', ''\<newline>'', ''B  a'']) =
     ([''a'', ''b'', ''a''], [EmptyLine 2]) \<and>
   count_words (fst (read_words_from_file (Opened [''Hi, hi'']))) = [(''hi,'', 1), (''hi'', 1)] \<and>
   count_words (fst (read_words_from_file
       (Opened [[CHR 0xC9, CHR ''t'', CHR 0xE9, CHR '' '', CHR 0xE9, CHR ''T'', CHR 0xC9]]))) =
     [([CHR 0xE9, CHR ''t'', CHR 0xE9], 2)] \<and>
   read_words_from_file (Opened [[CHR 0xA0, CHR 0x0A], ''a'']) = ([''a''], [EmptyLine 1])"
proof -
  have "count_words (fst (read_words_from_file (Opened [''a A b'']))) = [(''a'', 2), (''b'', 1)]"
    by code_simp
  moreover have "read_words_from_file (Opened [''a\<newline>'', ''\<newline>'', ''B  a'']) =
     ([''a'', ''b'', ''a''], [EmptyLine 2])"
    by code_simp
  moreover have "count_words (fst (read_words_from_file (Opened [''Hi, hi'']))) =
     [(''hi,'', 1), (''hi'', 1)]"
    by code_simp
  moreover have "count_words (fst (read_words_from_file
       (Opened [[CHR 0xC9, CHR ''t'', CHR 0xE9, CHR '' '', CHR 0xE9, CHR ''T'', CHR 0xC9]]))) =
     [([CHR 0xE9, CHR ''t'', CHR 0xE9], 2)]"
    by code_simp
  moreover have "read_words_from_file (Opened [[CHR 0xA0, CHR 0x0A], ''a'']) =
     ([''a''], [EmptyLine 1])"
    by code_simp
  moreover have "\<exists>words errors.
      read_words_from_file (Opened raw_lines) = (words, errors) \<and>
      words = map lower (filter (\<lambda>t. t \<noteq> [])
                (concat (map (split_sep CHR '' '') (filter (\<lambda>l. l \<noteq> []) (map strip raw_lines))))) \<and>
      errors = map (EmptyLine \<circ> fst)
                 (filter (\<lambda>(i, l). strip l = []) (zip [1 ..< 1 + length raw_lines] raw_lines)) \<and>
      count_words words = map (\<lambda>w. (w, count_list words w)) (first_seen words)"
    using read_word_lines_eq[of 0 raw_lines "[]" "[]"] count_words_eq
    by (simp add: read_words_from_file_def)
  ultimately show ?thesis
    by blast
qed


section \<open>Properties of the statistics\<close>

subsection \<open>Division by the count\<close>

lemma floor_log2_of_int:
  assumes "0 < n"
  shows "floor_log2 (of_int n) = bitlen n - 1" and "(2::rat) powi (bitlen n - 1) \<le> of_int n"
proof -
  have b: "2 ^ nat (bitlen n - 1) \<le> n" using bitlen_bounds[OF assms] by simp
  have ge: "1 \<le> bitlen n" using assms by (simp add: bitlen_alt_def)
  have "(2::rat) powi (bitlen n - 1) = 2 ^ nat (bitlen n - 1)"
    using ge by (simp add: power_int_def)
  also have "\<dots> = of_int (2 ^ nat (bitlen n - 1))" by simp
  also have "\<dots> \<le> of_int n" using b by (simp only: of_int_le_iff)
  finally show le: "(2::rat) powi (bitlen n - 1) \<le> of_int n" .
  moreover have "bitlen 1 = 1" by (simp add: bitlen_alt_def)
  ultimately show "floor_log2 (of_int n) = bitlen n - 1"
    by (simp add: floor_log2_def)
qed

lemma round_half_even_pos: "1 \<le> x \<Longrightarrow> 1 \<le> round_half_even x"
proof -
  assume "1 \<le> x"
  then have "1 \<le> \<lfloor>x\<rfloor>" by linarith
  then show ?thesis by (auto simp: round_half_even_def Let_def)
qed

lemma double_of_int_pos: 
  assumes "0 < n"
  shows "double_of_int n \<noteq> Finite 0" "double_of_int n \<noteq> NaN"
proof -
  let ?q = "of_int n :: rat"
  let ?e = "max (floor_log2 \<bar>?q\<bar>) (- 1022)"
  let ?ulp = "(2::rat) powi (?e - 52)"
  have q: "0 < ?q" "\<bar>?q\<bar> = ?q" using assms by simp_all
  have ge: "1 \<le> bitlen n" using assms by (simp add: bitlen_alt_def)
  have e: "?e = bitlen n - 1"
    using floor_log2_of_int(1)[OF assms] ge q by simp
  have ulp_pos: "0 < ?ulp" by simp
  have "?ulp \<le> 2 powi (bitlen n - 1)"
    unfolding e by (rule power_int_increasing) simp_all
  also have "\<dots> \<le> ?q" by (rule floor_log2_of_int(2)[OF assms])
  finally have "1 \<le> ?q / ?ulp" using ulp_pos by (simp add: pos_le_divide_eq)
  then have "1 \<le> round_half_even (?q / ?ulp)" by (rule round_half_even_pos)
  then have "0 < (of_int (round_half_even (?q / ?ulp)) :: rat) * ?ulp"
    using ulp_pos by simp
  then have nz: "(of_int (round_half_even (?q / ?ulp)) :: rat) * ?ulp \<noteq> 0" by linarith
  show "double_of_int n \<noteq> Finite 0"
    using q(1) nz by (simp add: double_of_int_def round_to_double_def Let_def)
  show "double_of_int n \<noteq> NaN"
    by (simp add: double_of_int_def round_to_double_def Let_def)
qed

lemma double_of_int_zero_iff: "0 \<le> n \<Longrightarrow> (double_of_int n = Finite 0) = (n = 0)"
  using double_of_int_pos(1)[of n] by (cases "n = 0") (auto simp: double_of_int_def round_to_double_def)

lemma fold_count:
  "snd (fold (\<lambda>value (total, count). (f value total, count + 1)) values (t, c)) = c + int (length values)"
  by (induction "values" arbitrary: t c) auto

lemma compute_mean_error_iff:
  "(compute_mean values = Inl e) = (values = [] \<and> e = ZeroDivisionError)"
proof -
  obtain total count where
    f: "fold (\<lambda>value (total, count). (double_add total value, count + 1)) values (Finite 0, 0 :: int)
         = (total, count)" by fastforce
  with fold_count[of "\<lambda>value total. double_add total value" "values" "Finite 0" 0]
  have c: "count = int (length values)" by simp
  then have "(double_of_int count = Finite 0) = (values = [])"
    using double_of_int_zero_iff[of count] by simp
  then show ?thesis
    unfolding compute_mean_def f by (auto simp: py_truediv_def)
qed

lemma compute_population_variance_error_iff:
  "(compute_population_variance values mean = Inl e) = (values = [] \<and> e = ZeroDivisionError)"
proof -
  obtain total count where
    f: "fold (\<lambda>value (total, count).
                    let diff = double_sub value mean
                    in (double_add total (double_mul diff diff), count + 1)) values
              (Finite 0, 0 :: int) = (total, count)" by fastforce
  with fold_count[of "\<lambda>value total. let diff = double_sub value mean
                    in double_add total (double_mul diff diff)" "values" "Finite 0" 0]
  have c: "count = int (length values)" by (simp add: Let_def)
  then have "(double_of_int count = Finite 0) = (values = [])"
    using double_of_int_zero_iff[of count] by simp
  then show ?thesis
    unfolding compute_population_variance_def f by (auto simp: py_truediv_def)
qed

lemma length_sorted_insert: "length (sorted_insert x ys) = Suc (length ys)"
  by (induction ys) auto

lemma length_py_sorted: "length (py_sorted xs) = length xs"
  by (induction xs) (auto simp: py_sorted_def length_sorted_insert)

lemma compute_median_nonempty:
  "sorted_values \<noteq> [] \<Longrightarrow> \<exists>m. compute_median sorted_values = Inr m"
proof -
  assume ne: "sorted_values \<noteq> []"
  let ?size = "int (length sorted_values)"
  have pos: "0 < ?size" using ne by simp
  have mid: "0 \<le> ?size div 2" "?size div 2 < ?size" using pos by presburger+
  have i1: "\<exists>a. py_index sorted_values (?size div 2) = Inr a"
    using mid by (simp add: py_index_def Let_def)
  show ?thesis
  proof (cases "?size mod 2 = 1")
    case True
    then show ?thesis using i1 by (simp add: compute_median_def Let_def)
  next
    case False
    then have "2 \<le> ?size" using pos by presburger
    then have "0 \<le> ?size div 2 - 1" "?size div 2 - 1 < ?size" by presburger+
    then have i2: "\<exists>a. py_index sorted_values (?size div 2 - 1) = Inr a"
      by (simp add: py_index_def Let_def)
    from i1 i2 False show ?thesis
      by (auto simp: compute_median_def Let_def py_truediv_def)
  qed
qed

subsection \<open>The variance is not negative, so the square root is defined\<close>

lemma round_half_even_nonneg: "0 \<le> x \<Longrightarrow> 0 \<le> round_half_even x"
proof -
  assume "0 \<le> x"
  then have "0 \<le> \<lfloor>x\<rfloor>" by simp
  then show ?thesis by (auto simp: round_half_even_def Let_def)
qed

lemma round_to_double_nonneg: "0 \<le> q \<Longrightarrow> not_negative (round_to_double q)"
proof -
  assume q: "0 \<le> q"
  let ?ulp = "(2::rat) powi (max (floor_log2 \<bar>q\<bar>) (- 1022) - 52)"
  have "0 < ?ulp" by simp
  then have "0 \<le> q / ?ulp" using q by simp
  then have "0 \<le> round_half_even (q / ?ulp)" by (rule round_half_even_nonneg)
  then have "0 \<le> (of_int (round_half_even (q / ?ulp)) :: rat) * ?ulp" by simp
  then show ?thesis
    using q by (auto simp: round_to_double_def Let_def)
qed

lemma double_square_nonneg: "not_negative (double_mul d d)"
  by (cases d) (simp_all add: round_to_double_nonneg)

lemma double_add_nonneg:
  "not_negative x \<Longrightarrow> not_negative y \<Longrightarrow> not_negative (double_add x y)"
  by (cases x; cases y) (simp_all add: round_to_double_nonneg)

lemma variance_fold_nonneg:
  "not_negative t \<Longrightarrow>
   not_negative (fst (fold (\<lambda>value (total, count).
           let diff = double_sub value mean
           in (double_add total (double_mul diff diff), count + 1)) vs (t, c)))"
  by (induction vs arbitrary: t c) (simp_all add: Let_def double_add_nonneg double_square_nonneg)

lemma double_of_int_positive:
  assumes "0 < n"
  shows "(\<exists>c. 0 < c \<and> double_of_int n = Finite c) \<or> double_of_int n = PosInf"
proof -
  have nn: "not_negative (double_of_int n)"
    unfolding double_of_int_def using assms by (intro round_to_double_nonneg) simp
  show ?thesis
    using nn double_of_int_pos[OF assms]
    by (cases "double_of_int n") auto
qed

lemma quotient_nonneg:
  assumes "not_negative t" "0 < n"
  shows "\<exists>v. py_truediv t (double_of_int n) = Inr v \<and> not_negative v"
proof -
  from double_of_int_positive[OF assms(2)] show ?thesis
  proof
    assume "\<exists>c. 0 < c \<and> double_of_int n = Finite c"
    then obtain c where c: "0 < c" "double_of_int n = Finite c" by blast
    then show ?thesis
      using assms(1) by (cases t) (simp_all add: py_truediv_def round_to_double_nonneg)
  next
    assume "double_of_int n = PosInf"
    then show ?thesis
      using assms(1) by (cases t) (simp_all add: py_truediv_def)
  qed
qed

lemma variance_nonneg:
  assumes "vs \<noteq> []"
  shows "\<exists>v. compute_population_variance vs mean = Inr v \<and> not_negative v"
proof -
  obtain total count where
    f: "fold (\<lambda>value (total, count).
                    let diff = double_sub value mean
                    in (double_add total (double_mul diff diff), count + 1)) vs
              (Finite 0, 0 :: int) = (total, count)" by fastforce
  with fold_count[of "\<lambda>value total. let diff = double_sub value mean
                    in double_add total (double_mul diff diff)" vs "Finite 0" 0]
  have c: "count = int (length vs)" by (simp add: Let_def)
  then have pos: "0 < count" using assms by simp
  have "not_negative (fst (total, count))"
    unfolding f[symmetric] by (rule variance_fold_nonneg) simp
  then have "not_negative total" by simp
  from quotient_nonneg[OF this pos] show ?thesis
    unfolding compute_population_variance_def f by simp
qed

lemma math_sqrt_returns: "not_negative v \<Longrightarrow> \<exists>r. math_sqrt sqrt_fn v = Inr r"
  by (cases v) (simp_all add: math_sqrt_def)

lemma compute_statistics_for_file_returns:
  "\<exists>section errors. compute_statistics_for_file float_conv sqrt_fn file = Inr (section, errors)"
proof -
  obtain numbers errors where p: "parse_numbers_from_file float_conv file = (numbers, errors)"
    by fastforce
  show ?thesis
  proof (cases "numbers = []")
    case True
    then show ?thesis
      by (simp add: compute_statistics_for_file_def p)
  next
    case False
    then obtain mean_val where m: "compute_mean numbers = Inr mean_val"
      using compute_mean_error_iff[of numbers] by (cases "compute_mean numbers") auto
    from False have "py_sorted numbers \<noteq> []"
      using length_py_sorted[of numbers] by (metis length_0_conv)
    then obtain median_val where d: "compute_median (py_sorted numbers) = Inr median_val"
      using compute_median_nonempty by blast
    from variance_nonneg[OF False, of mean_val] obtain variance_val where
      v: "compute_population_variance numbers mean_val = Inr variance_val" "not_negative variance_val"
      by blast
    from math_sqrt_returns[OF v(2), of sqrt_fn] obtain std where
      s: "math_sqrt sqrt_fn variance_val = Inr std" by blast
    show ?thesis
      using False by (simp add: compute_statistics_for_file_def p m d v(1) s Let_def)
  qed
qed

text \<open>
  Claim C9. \<open>compute_mean\<close> and \<open>compute_population_variance\<close> raise
  \<open>ZeroDivisionError\<close> exactly on the empty list. \<open>compute_statistics_for_file\<close>
  returns the "no data" section exactly when the parsed list is empty, before it calls
  them, and so never raises \<open>ZeroDivisionError\<close>: it returns a section for every file,
  whatever the built-in conversions are.
\<close>

theorem no_division_by_zero:
  "(compute_mean values = Inl ZeroDivisionError) = (values = []) \<and>
   (compute_population_variance values mean = Inl ZeroDivisionError) = (values = []) \<and>
   compute_statistics_for_file float_conv sqrt_fn file \<noteq> Inl ZeroDivisionError \<and>
   (\<exists>section errors. compute_statistics_for_file float_conv sqrt_fn file = Inr (section, errors)) \<and>
   (\<exists>errors. compute_statistics_for_file float_conv sqrt_fn file = Inr (NoData, errors)) =
     (fst (parse_numbers_from_file float_conv file) = [])"
proof -
  obtain numbers errors where p: "parse_numbers_from_file float_conv file = (numbers, errors)"
    by fastforce
  from compute_statistics_for_file_returns[of float_conv sqrt_fn "file"] obtain s es where
    r: "compute_statistics_for_file float_conv sqrt_fn file = Inr (s, es)"
    by blast
  have "(s = NoData) = (numbers = [])"
    using r by (auto simp: compute_statistics_for_file_def p Let_def split: sum.splits if_splits)
  then show ?thesis
    using compute_mean_error_iff[of "values" ZeroDivisionError]
      compute_population_variance_error_iff[of "values" mean ZeroDivisionError]
    by (simp add: p r)
qed

subsection \<open>The mode\<close>

text \<open>
  Claim C4. The claim holds on its example \<open>[1, 1, 2, 2, 3]\<close> and on lists of distinct
  values, but not in general: after the loop, a last run that is longer than every
  earlier one replaces \<open>modes\<close> without updating \<open>max_count\<close>, so when no earlier run
  was longer than 1 the final test \<open>max_count == 1\<close> still succeeds and the function
  returns \<open>None\<close>. Two equal values, and \<open>[1, 2, 2]\<close>, have a mode and get none.
\<close>

theorem compute_mode_loses_final_run:
  "compute_mode [Finite q, Finite q] = None \<and>
   compute_mode [Finite 1, Finite 2, Finite 2] = None \<and>
   compute_mode [Finite 1, Finite 1, Finite 2, Finite 2, Finite 3] = Some [Finite 1, Finite 2] \<and>
   compute_mode [Finite 1, Finite 2, Finite 3] = None"
proof -
  have "compute_mode [Finite q, Finite q] = None"
    by (simp add: compute_mode_def mode_step_def)
  moreover have "compute_mode [Finite 1, Finite 2, Finite 2] = None"
    by code_simp
  moreover have "compute_mode [Finite 1, Finite 1, Finite 2, Finite 2, Finite 3] =
      Some [Finite 1, Finite 2]"
    by code_simp
  moreover have "compute_mode [Finite 1, Finite 2, Finite 3] = None"
    by code_simp
  ultimately show ?thesis by blast
qed

subsection \<open>Mean and variance of constant data\<close>

lemma round_to_double_zero: "round_to_double 0 = Finite 0"
  by (simp add: round_to_double_def)

lemma double_of_int_one: "double_of_int 1 = Finite 1"
  by code_simp

lemma variance_fold_constant:
  "fold (\<lambda>value (total, count).
           let diff = double_sub value (Finite x)
           in (double_add total (double_mul diff diff), count + 1))
        (replicate n (Finite x)) (Finite 0, c) = (Finite 0, c + int n)"
  by (induction n arbitrary: c) (simp_all add: double_sub_def round_to_double_zero)

lemma zero_divided_by_count: "0 < n \<Longrightarrow> py_truediv (Finite 0) (double_of_int n) = Inr (Finite 0)"
  using double_of_int_pos[of n]
  by (cases "double_of_int n") (simp_all add: py_truediv_def round_to_double_zero)

text \<open>
  Claim C5, as the code has it. The mean of a single finite value is that value, and
  the population variance of \<open>n + 1\<close> copies of \<open>x\<close> about the mean \<open>x\<close> is exactly 0:
  so the computed variance of constant data is 0 whenever the computed mean is the
  common value, as it is for a single element. The computed mean of several equal
  values is rounded, though, and need not be the common value (see the counterexample).
\<close>

theorem mean_and_variance_of_constant_data:
  "(is_double x \<longrightarrow>
      compute_mean [Finite x] = Inr (Finite x) \<and>
      compute_population_variance [Finite x] (Finite x) = Inr (Finite 0)) \<and>
   compute_population_variance (replicate (Suc n) (Finite x)) (Finite x) = Inr (Finite 0)"
proof -
  have var: "compute_population_variance (replicate (Suc k) (Finite x)) (Finite x) = Inr (Finite 0)" for k
    unfolding compute_population_variance_def variance_fold_constant
    using zero_divided_by_count[of "int (Suc k)"] by simp
  have "compute_mean [Finite x] = Inr (Finite x)" if "is_double x"
    using that by (simp add: compute_mean_def is_double_def double_of_int_one py_truediv_def)
  moreover have "compute_population_variance [Finite x] (Finite x) = Inr (Finite 0)"
    using var[of 0] by simp
  ultimately show ?thesis
    using var[of n] by blast
qed

theorem mean_and_variance_of_constant_data_witness:
  "is_double (3602879701896397 / 36028797018963968) \<and>
   compute_mean [Finite (3602879701896397 / 36028797018963968)]
     = Inr (Finite (3602879701896397 / 36028797018963968)) \<and>
   compute_population_variance [Finite (3602879701896397 / 36028797018963968)]
     (Finite (3602879701896397 / 36028797018963968)) = Inr (Finite 0)"
proof -
  have d: "is_double (3602879701896397 / 36028797018963968)"
    by code_simp
  with mean_and_variance_of_constant_data[of "3602879701896397 / 36028797018963968" 0]
  show ?thesis by blast
qed

text \<open>
  The counterexample to claim C5 as stated: three copies of the double nearest to
  \<open>0.1\<close>. Their sum is rounded to \<open>0.30000000000000004\<close>, the mean to
  \<open>0.10000000000000002\<close>, one unit in the last place above the data, and the variance
  is \<open>2^(-112)\<close>, about \<open>1.9e-34\<close>, not 0.
\<close>

theorem variance_of_equal_values_counterexample:
  "round_to_double (1 / 10) = Finite (3602879701896397 / 36028797018963968) \<and>
   compute_mean (replicate 3 (Finite (3602879701896397 / 36028797018963968)))
     = Inr (Finite (7205759403792795 / 72057594037927936)) \<and>
   compute_population_variance (replicate 3 (Finite (3602879701896397 / 36028797018963968)))
       (Finite (7205759403792795 / 72057594037927936))
     = Inr (Finite (1 / 5192296858534827628530496329220096)) \<and>
   compute_population_variance (replicate 3 (Finite (3602879701896397 / 36028797018963968)))
       (Finite (7205759403792795 / 72057594037927936))
     \<noteq> Inr (Finite 0)"
proof -
  have r: "round_to_double (1 / 10) = Finite (3602879701896397 / 36028797018963968)"
    by code_simp
  have m: "compute_mean (replicate 3 (Finite (3602879701896397 / 36028797018963968)))
     = Inr (Finite (7205759403792795 / 72057594037927936))"
    by code_simp
  have v: "compute_population_variance (replicate 3 (Finite (3602879701896397 / 36028797018963968)))
       (Finite (7205759403792795 / 72057594037927936))
     = Inr (Finite (1 / 5192296858534827628530496329220096))"
    by code_simp
  show ?thesis
    unfolding v using r m by simp
qed

section \<open>Properties of the entry points\<close>










section \<open>Properties of the sales totals\<close>


















end
